theory Spec2Isabelle
  imports Complex_Main "HOL-Library.Log_Nat"
begin

section \<open>Python floats: binary64 rounding on rationals\<close>

text \<open>
  The program divides integer millisecond stamps by 1000 and compares the quotients with
  float constants. A finite Python float is a rational number, and every float operation
  returns the exact result rounded to the nearest binary64 number, ties to even. The
  model keeps floats as \<^typ>\<open>rat\<close> and writes the rounding out as \<open>fl\<close>.
  Overflow is outside the model: a quotient of \<open>2^1024\<close> or more, where Python raises
  \<open>OverflowError\<close>, needs stamps that no media file reaches.
\<close>

definition pow2 :: "int \<Rightarrow> rat" where
  "pow2 k = (if 0 \<le> k then 2 ^ nat k else 1 / 2 ^ nat (- k))"

text \<open>The binary exponent of a positive rational: \<open>pow2 e \<le> x < pow2 (e + 1)\<close>.\<close>

definition ilog2 :: "rat \<Rightarrow> int" where
  "ilog2 x = (let (p, q) = quotient_of x; k = bitlen p - bitlen q
              in if pow2 k \<le> x then k else k - 1)"

definition round_half_even :: "rat \<Rightarrow> int" where
  "round_half_even q =
     (let n = \<lfloor>q\<rfloor>; r = q - of_int n
      in if r < 1 / 2 then n
         else if 1 / 2 < r then n + 1
         else if even n then n else n + 1)"

text \<open>
  Rounding of a non-negative rational: 53 significant bits in the binade of \<open>x\<close>, and
  the fixed spacing \<open>2^-1074\<close> of the subnormal numbers below \<open>2^-1022\<close>.
\<close>

definition fl_pos :: "rat \<Rightarrow> rat" where
  "fl_pos x = (if x = 0 then 0
               else let u = pow2 (max (ilog2 x) (- 1022) - 52)
                    in of_int (round_half_even (x / u)) * u)"

definition fl :: "rat \<Rightarrow> rat" where
  "fl x = (if x < 0 then - fl_pos (- x) else fl_pos x)"

text \<open>Python's \<open>int(x)\<close> on a float truncates towards zero.\<close>

definition py_int :: "rat \<Rightarrow> int" where
  "py_int x = (if 0 \<le> x then \<lfloor>x\<rfloor> else \<lceil>x\<rceil>)"

section \<open>Words and cues\<close>

text \<open>
  A word of the transcript, as the transcription client returns it: the recognised text
  and two integer millisecond stamps. One \<^typ>\<open>char\<close> of \<open>text\<close> stands for one
  character of the Python string, so that \<^const>\<open>length\<close> is Python's \<open>len\<close>.
\<close>

record word =
  "text" :: string
  start :: int
  "end" :: int

text \<open>
  One subtitle block as the program writes it. \<open>start_s\<close> and \<open>end_s\<close> are the two
  float values (seconds) that the program hands to \<open>format_srt_time\<close>; \<open>index\<close> is the
  value of \<open>srt_counter\<close> printed on the first line of the block.
\<close>

record cue =
  index :: int
  start_s :: rat
  end_s :: rat
  cue_text :: string

section \<open>Formatting\<close>

text \<open>Python's \<open>sep.join(xs)\<close>.\<close>

fun join :: "string \<Rightarrow> string list \<Rightarrow> string" where
  "join sep [] = []"
| "join sep [x] = x"
| "join sep (x # y # ys) = x @ sep @ join sep (y # ys)"

definition digit_char :: "nat \<Rightarrow> char" where
  "digit_char d = ''0123456789'' ! d"

text \<open>Decimal digits of a natural number, as \<open>str\<close> prints them.\<close>

fun str_nat :: "nat \<Rightarrow> string" where
  "str_nat n = (if n < 10 then [digit_char n] else str_nat (n div 10) @ [digit_char (n mod 10)])"

declare str_nat.simps [simp del]

definition str_int :: "int \<Rightarrow> string" where
  "str_int i = (if i < 0 then ''-'' @ str_nat (nat (- i)) else str_nat (nat i))"

definition zero_pad :: "nat \<Rightarrow> string \<Rightarrow> string" where
  "zero_pad w s = replicate (w - length s) (CHR ''0'') @ s"

text \<open>
  The format specification \<open>{n:0wd}\<close>: decimal, padded with zeros to at least \<open>w\<close>
  characters, the sign counted in the width and written before the zeros.
\<close>

definition fmt_0d :: "nat \<Rightarrow> int \<Rightarrow> string" where
  "fmt_0d w n = (if n < 0 then ''-'' @ zero_pad (w - 1) (str_nat (nat (- n)))
                 else zero_pad w (str_nat (nat n)))"

text \<open>
  \<open>format_srt_time(seconds)\<close>. The argument is a float. \<open>int(seconds)\<close> is converted
  back to a float for the subtraction, and the difference and the product are rounded
  as every float operation is.
\<close>

definition format_srt_time :: "rat \<Rightarrow> string" where
  "format_srt_time seconds =
     (let millisec = py_int (fl (fl (seconds - fl (of_int (py_int seconds))) * 1000));
          seconds1 = py_int seconds;
          minutes1 = seconds1 div 60;
          seconds2 = seconds1 mod 60;
          hours = minutes1 div 60;
          minutes2 = minutes1 mod 60
      in fmt_0d 2 hours @ '':'' @ fmt_0d 2 minutes2 @ '':'' @ fmt_0d 2 seconds2
         @ '','' @ fmt_0d 3 millisec)"

section \<open>The segmentation loop of \<open>create_speaker_srt\<close>\<close>

text \<open>True division of two Python integers: the exact quotient, rounded to a float.\<close>

definition truediv :: "int \<Rightarrow> int \<Rightarrow> rat" where
  "truediv a b = fl (of_int a / of_int b)"

text \<open>The float literal \<open>0.7\<close> is the binary64 number nearest to seven tenths.\<close>

definition MAX_PAUSE_S :: rat where
  "MAX_PAUSE_S = fl (7 / 10)"

definition MAX_CHARS :: nat where
  "MAX_CHARS = 80"

definition MAX_DURATION_S :: int where
  "MAX_DURATION_S = 7"

text \<open>
  The state of the loop. \<open>written\<close> stands for the file \<open>f\<close>: one entry for each
  block written, holding the values of \<open>srt_counter\<close> and \<open>current_block_words\<close> from
  which the three writes of that block are formatted.
\<close>

record state =
  written :: "(int \<times> word list) list"
  srt_counter :: int
  current_block_words :: "word list"

text \<open>
  The three tests of the loop body, each of which sets \<open>should_start_new_block\<close>. The
  loop reaches them only with a non-empty block, so \<^const>\<open>last\<close> and \<^const>\<open>hd\<close>
  read \<open>current_block_words[-1]\<close> and \<open>current_block_words[0]\<close>.
\<close>

definition should_start_new_block :: "word list \<Rightarrow> word \<Rightarrow> bool" where
  "should_start_new_block block_words w =
     (let prev_word = last block_words;
          pause_duration = truediv (start w - end prev_word) 1000;
          current_text = join '' '' (map text block_words);
          block_start_time = start (hd block_words);
          block_duration = truediv (end w - block_start_time) 1000
      in pause_duration \<ge> MAX_PAUSE_S
         \<or> length current_text + length (text w) + 1 > MAX_CHARS
         \<or> block_duration \<ge> of_int MAX_DURATION_S)"

definition loop_body :: "state \<Rightarrow> word \<Rightarrow> state" where
  "loop_body s w =
     (if current_block_words s = [] then
        s\<lparr>current_block_words := current_block_words s @ [w]\<rparr>
      else if should_start_new_block (current_block_words s) w then
        s\<lparr>written := written s @ [(srt_counter s, current_block_words s)],
          srt_counter := srt_counter s + 1,
          current_block_words := [w]\<rparr>
      else s\<lparr>current_block_words := current_block_words s @ [w]\<rparr>)"

definition init_state :: state where
  "init_state = \<lparr>written = [], srt_counter = 1, current_block_words = []\<rparr>"

definition run_loop :: "word list \<Rightarrow> state" where
  "run_loop ws = foldl loop_body init_state ws"

text \<open>
  Step 3 of \<open>create_speaker_srt\<close>, from \<open>srt_counter = 1\<close> to the end of the \<open>with\<close>
  block, on the words of the transcript: the blocks written and the final counter. The
  program then logs \<open>srt_counter - 1\<close> as the number of blocks.
\<close>

definition create_speaker_srt :: "word list \<Rightarrow> (int \<times> word list) list \<times> int" where
  "create_speaker_srt ws =
     (if ws \<noteq> [] then
        let s = run_loop ws
        in if current_block_words s \<noteq> [] then
             (written s @ [(srt_counter s, current_block_words s)], srt_counter s + 1)
           else (written s, srt_counter s)
      else (written init_state, srt_counter init_state))"

definition generated_blocks :: "word list \<Rightarrow> int" where
  "generated_blocks ws = snd (create_speaker_srt ws) - 1"

text \<open>
  The values of one written block: the counter, the two floats handed to
  \<open>format_srt_time\<close> and the text. Every block is written from a non-empty
  \<open>current_block_words\<close>.
\<close>

definition write_block :: "int \<times> word list \<Rightarrow> cue" where
  "write_block e =
     (case e of (counter, block_words) \<Rightarrow>
        \<lparr>index = counter,
         start_s = truediv (start (hd block_words)) 1000,
         end_s = truediv (end (last block_words)) 1000,
         cue_text = join '' '' (map text block_words)\<rparr>)"

text \<open>The word groups behind the written blocks, and the cues, in the order written.\<close>

definition groups :: "word list \<Rightarrow> word list list" where
  "groups ws = map snd (fst (create_speaker_srt ws))"

definition cues :: "word list \<Rightarrow> cue list" where
  "cues ws = map write_block (fst (create_speaker_srt ws))"

text \<open>The text of one block in the file, and the file.\<close>

definition block_lines :: "cue \<Rightarrow> string" where
  "block_lines c =
     str_int (index c) @ [CHR 0x0A]
     @ format_srt_time (start_s c) @ '' --> '' @ format_srt_time (end_s c) @ [CHR 0x0A]
     @ cue_text c @ [CHR 0x0A, CHR 0x0A]"

definition srt_file :: "word list \<Rightarrow> string" where
  "srt_file ws = concat (map block_lines (cues ws))"

section \<open>The triggers as the specification words them\<close>

text \<open>
  The specification states the three triggers on exact quotients: a pause of at least
  0.7 seconds, a candidate text longer than 80 characters, a span of at least 7 seconds.
  This predicate follows those words, in exact rational arithmetic, and is compared with
  \<^const>\<open>should_start_new_block\<close> below.
\<close>

definition spec_trigger :: "word list \<Rightarrow> word \<Rightarrow> bool" where
  "spec_trigger g w =
     ((7 / 10 :: rat) \<le> of_int (start w - end (last g)) / 1000
      \<or> 80 < length (join '' '' (map text g)) + length (text w) + 1
      \<or> (7 :: rat) \<le> of_int (end w - start (hd g)) / 1000)"

section \<open>Properties of the rounding\<close>

lemma pow2_powi: "pow2 k = 2 powi k"
  by (simp add: pow2_def power_int_def power_one_over inverse_eq_divide)

lemma pow2_pos: "0 < pow2 k"
  by (simp add: pow2_powi)

lemma pow2_add: "pow2 (a + b) = pow2 a * pow2 b"
  by (simp add: pow2_powi power_int_add)

lemma pow2_mult: "a + b = c \<Longrightarrow> pow2 a * pow2 b = pow2 c"
  using pow2_add [of a b] by simp

lemma pow2_mono: "a \<le> b \<Longrightarrow> pow2 a \<le> pow2 b"
  by (simp add: pow2_powi power_int_increasing)

lemma pow2_less_imp: "pow2 a < pow2 b \<Longrightarrow> a < b"
  using pow2_mono [of b a] by (cases "a < b") auto

lemma ilog2_bounds:
  assumes "0 < x"
  shows "pow2 (ilog2 x) \<le> x \<and> x < pow2 (ilog2 x + 1)"
proof -
  obtain p q where pq: "quotient_of x = (p, q)" by (cases "quotient_of x")
  have q: "0 < q" using quotient_of_denom_pos [OF pq] .
  have x: "x = of_int p / of_int q" using quotient_of_div [OF pq] .
  have p: "0 < p" using assms q x by (simp add: zero_less_divide_iff)
  define a where "a = bitlen p"
  define b where "b = bitlen q"
  have a1: "1 \<le> a" and b1: "1 \<le> b"
    using p q bitlen_eq_zero_iff [of p] bitlen_eq_zero_iff [of q] bitlen_nonneg [of p] bitlen_nonneg [of q]
    by (auto simp: a_def b_def)
  have pl: "(2::int) ^ nat (a - 1) \<le> p" and pu: "p < 2 ^ nat a"
    using bitlen_bounds [OF p] by (simp_all add: a_def)
  have ql: "(2::int) ^ nat (b - 1) \<le> q" and qu: "q < 2 ^ nat b"
    using bitlen_bounds [OF q] by (simp_all add: b_def)
  have Pl: "pow2 (a - 1) \<le> of_int p"
  proof -
    have "(of_int ((2::int) ^ nat (a - 1)) :: rat) \<le> of_int p" using pl by (simp only: of_int_le_iff)
    then show ?thesis using a1 by (simp add: pow2_def)
  qed
  have Pu: "of_int p < pow2 a"
  proof -
    have "(of_int p :: rat) < of_int ((2::int) ^ nat a)" using pu by (simp only: of_int_less_iff)
    then show ?thesis using a1 by (simp add: pow2_def)
  qed
  have Ql: "pow2 (b - 1) \<le> of_int q"
  proof -
    have "(of_int ((2::int) ^ nat (b - 1)) :: rat) \<le> of_int q" using ql by (simp only: of_int_le_iff)
    then show ?thesis using b1 by (simp add: pow2_def)
  qed
  have Qu: "of_int q < pow2 b"
  proof -
    have "(of_int q :: rat) < of_int ((2::int) ^ nat b)" using qu by (simp only: of_int_less_iff)
    then show ?thesis using b1 by (simp add: pow2_def)
  qed
  have Q0: "(0::rat) < of_int q" using q by simp
  have P0: "(0::rat) < of_int p" using p by simp
  have lower: "pow2 (a - b - 1) \<le> x"
  proof -
    have "pow2 (a - b - 1) * of_int q \<le> pow2 (a - b - 1) * pow2 b"
      using Qu pow2_pos [of "a - b - 1"] by (simp add: less_imp_le)
    also have "\<dots> = pow2 (a - 1)" by (rule pow2_mult) simp
    also have "\<dots> \<le> of_int p" by (rule Pl)
    finally show ?thesis using Q0 by (simp add: x pos_le_divide_eq)
  qed
  have upper: "x < pow2 (a - b + 1)"
  proof -
    have "of_int p < pow2 a" by (rule Pu)
    also have "\<dots> = pow2 (a - b + 1) * pow2 (b - 1)" by (rule pow2_mult [symmetric]) simp
    also have "\<dots> \<le> pow2 (a - b + 1) * of_int q"
      using Ql pow2_pos [of "a - b + 1"] by simp
    finally show ?thesis using Q0 by (simp add: x pos_divide_less_eq)
  qed
  have il: "ilog2 x = (if pow2 (a - b) \<le> x then a - b else a - b - 1)"
    by (simp add: ilog2_def pq a_def b_def)
  show ?thesis
  proof (cases "pow2 (a - b) \<le> x")
    case True
    then show ?thesis using upper by (simp add: il)
  next
    case False
    then show ?thesis using lower by (simp add: il)
  qed
qed

lemma ilog2_mono:
  assumes "0 < x" and "x \<le> y"
  shows "ilog2 x \<le> ilog2 y"
proof -
  have "pow2 (ilog2 x) \<le> x" using ilog2_bounds [OF assms(1)] by simp
  also have "x \<le> y" by fact
  also have "y < pow2 (ilog2 y + 1)" using ilog2_bounds [of y] assms by simp
  finally have "ilog2 x < ilog2 y + 1" by (rule pow2_less_imp)
  then show ?thesis by simp
qed

lemma round_half_even_of_int [simp]: "round_half_even (of_int n) = n"
  by (simp add: round_half_even_def)

lemma round_half_even_mono:
  assumes "q \<le> r"
  shows "round_half_even q \<le> round_half_even r"
proof (cases "\<lfloor>q\<rfloor> = \<lfloor>r\<rfloor>")
  case True
  then show ?thesis using assms by (auto simp: round_half_even_def Let_def)
next
  case False
  have "\<lfloor>q\<rfloor> \<le> \<lfloor>r\<rfloor>" using assms by (rule floor_mono)
  then have lt: "\<lfloor>q\<rfloor> + 1 \<le> \<lfloor>r\<rfloor>" using False by simp
  have "round_half_even q \<le> \<lfloor>q\<rfloor> + 1" by (simp add: round_half_even_def Let_def)
  moreover have "\<lfloor>r\<rfloor> \<le> round_half_even r" by (simp add: round_half_even_def Let_def)
  ultimately show ?thesis using lt by linarith
qed

lemma round_half_even_ge: "of_int n \<le> q \<Longrightarrow> n \<le> round_half_even q"
  using round_half_even_mono [of "of_int n" q] by simp

lemma round_half_even_le: "q \<le> of_int n \<Longrightarrow> round_half_even q \<le> n"
  using round_half_even_mono [of q "of_int n"] by simp

lemma fl_pos_nonneg: "0 \<le> x \<Longrightarrow> 0 \<le> fl_pos x"
proof -
  assume x: "0 \<le> x"
  have "0 \<le> round_half_even (x / pow2 k)" for k
    using round_half_even_ge [of 0 "x / pow2 k"] x pow2_pos [of k] by simp
  then show ?thesis using pow2_pos by (simp add: fl_pos_def Let_def less_imp_le)
qed

lemma fl_pos_mono:
  assumes "0 \<le> x" and "x \<le> y"
  shows "fl_pos x \<le> fl_pos y"
proof (cases "x = 0")
  case True
  then show ?thesis using fl_pos_nonneg [of y] assms by (simp add: fl_pos_def)
next
  case False
  then have x: "0 < x" and y: "0 < y" using assms by auto
  define ex where "ex = max (ilog2 x) (- 1022)"
  define ey where "ey = max (ilog2 y) (- 1022)"
  have fx: "fl_pos x = of_int (round_half_even (x / pow2 (ex - 52))) * pow2 (ex - 52)"
    using x by (simp add: fl_pos_def ex_def Let_def)
  have fy: "fl_pos y = of_int (round_half_even (y / pow2 (ey - 52))) * pow2 (ey - 52)"
    using y by (simp add: fl_pos_def ey_def Let_def)
  have le: "ex \<le> ey" using ilog2_mono [OF x assms(2)] by (simp add: ex_def ey_def)
  show ?thesis
  proof (cases "ex = ey")
    case True
    have "x / pow2 (ey - 52) \<le> y / pow2 (ey - 52)"
      using assms(2) pow2_pos [of "ey - 52"] by (simp add: divide_right_mono less_imp_le)
    then have "round_half_even (x / pow2 (ey - 52)) \<le> round_half_even (y / pow2 (ey - 52))"
      by (rule round_half_even_mono)
    then have "(of_int (round_half_even (x / pow2 (ey - 52))) :: rat) \<le> of_int (round_half_even (y / pow2 (ey - 52)))"
      by (simp only: of_int_le_iff)
    then show ?thesis using pow2_pos [of "ey - 52"] by (simp add: fx fy True)
  next
    case False
    then have lt: "ex + 1 \<le> ey" using le by simp
    then have eyl: "ey = ilog2 y" by (auto simp: ey_def ex_def max_def split: if_splits)
    have "x < pow2 (ilog2 x + 1)" using ilog2_bounds [OF x] by simp
    also have "\<dots> \<le> pow2 (ex + 1)" by (rule pow2_mono) (simp add: ex_def)
    finally have xu: "x < pow2 (ex + 1)" .
    have "x / pow2 (ex - 52) \<le> pow2 (ex + 1) / pow2 (ex - 52)"
      using xu pow2_pos [of "ex - 52"] by (simp add: divide_right_mono less_imp_le)
    also have "pow2 (ex + 1) = pow2 53 * pow2 (ex - 52)" by (rule pow2_mult [symmetric]) simp
    also have "pow2 53 * pow2 (ex - 52) / pow2 (ex - 52) = pow2 53"
      using pow2_pos [of "ex - 52"] by simp
    also have "pow2 53 = of_int (2 ^ 53)" by (simp add: pow2_def)
    finally have "round_half_even (x / pow2 (ex - 52)) \<le> 2 ^ 53" by (rule round_half_even_le)
    then have "(of_int (round_half_even (x / pow2 (ex - 52))) :: rat) \<le> of_int (2 ^ 53)"
      by (simp only: of_int_le_iff)
    then have "fl_pos x \<le> of_int (2 ^ 53) * pow2 (ex - 52)"
      using pow2_pos [of "ex - 52"] by (simp add: fx)
    also have "of_int (2 ^ 53) = pow2 53" by (simp add: pow2_def)
    also have "pow2 53 * pow2 (ex - 52) = pow2 (ex + 1)" by (rule pow2_mult) simp
    also have "\<dots> \<le> pow2 ey" using lt by (rule pow2_mono)
    finally have A: "fl_pos x \<le> pow2 ey" .
    have yl: "pow2 ey \<le> y" using ilog2_bounds [OF y] by (simp add: eyl)
    have "of_int (2 ^ 52) = pow2 52" by (simp add: pow2_def)
    also have "\<dots> = pow2 52 * pow2 (ey - 52) / pow2 (ey - 52)"
      using pow2_pos [of "ey - 52"] by simp
    also have "pow2 52 * pow2 (ey - 52) = pow2 ey" by (rule pow2_mult) simp
    also have "pow2 ey / pow2 (ey - 52) \<le> y / pow2 (ey - 52)"
      using yl pow2_pos [of "ey - 52"] by (simp add: divide_right_mono less_imp_le)
    finally have "2 ^ 52 \<le> round_half_even (y / pow2 (ey - 52))" by (rule round_half_even_ge)
    then have "(of_int (2 ^ 52) :: rat) \<le> of_int (round_half_even (y / pow2 (ey - 52)))"
      by (simp only: of_int_le_iff)
    then have "of_int (2 ^ 52) * pow2 (ey - 52) \<le> fl_pos y"
      using pow2_pos [of "ey - 52"] by (simp add: fy)
    moreover have "of_int (2 ^ 52) * pow2 (ey - 52) = pow2 ey"
    proof -
      have "of_int (2 ^ 52) = pow2 52" by (simp add: pow2_def)
      moreover have "pow2 52 * pow2 (ey - 52) = pow2 ey" by (rule pow2_mult) simp
      ultimately show ?thesis by simp
    qed
    ultimately have B: "pow2 ey \<le> fl_pos y" by simp
    show ?thesis using A B by simp
  qed
qed

lemma fl_mono: "x \<le> y \<Longrightarrow> fl x \<le> fl y"
proof -
  assume xy: "x \<le> y"
  consider "0 \<le> x" | "x < 0" "y < 0" | "x < 0" "0 \<le> y" by linarith
  then show ?thesis
  proof cases
    case 1
    then show ?thesis using xy fl_pos_mono [of x y] by (simp add: fl_def)
  next
    case 2
    then show ?thesis using xy fl_pos_mono [of "- y" "- x"] by (simp add: fl_def)
  next
    case 3
    then show ?thesis using fl_pos_nonneg [of "- x"] fl_pos_nonneg [of y] by (simp add: fl_def)
  qed
qed

section \<open>Numbers that rounding leaves unchanged\<close>

lemma pow2_strict_mono: "a < b \<Longrightarrow> pow2 a < pow2 b"
  by (simp add: pow2_powi power_int_strict_increasing)

lemma pow2_le_imp: "pow2 a \<le> pow2 b \<Longrightarrow> a \<le> b"
  using pow2_strict_mono [of b a] by (cases "a \<le> b") auto

lemma pow2_of_int: "0 \<le> a \<Longrightarrow> pow2 a = of_int (2 ^ nat a)"
  by (simp add: pow2_def)

lemma pow2_neg: "a < 0 \<Longrightarrow> pow2 a = 1 / of_int (2 ^ nat (- a))"
  by (simp add: pow2_def)

lemma pow2_divide: "pow2 a / pow2 b = pow2 (a - b)"
proof -
  have "pow2 (a - b) * pow2 b = pow2 a" by (rule pow2_mult) simp
  then show ?thesis using pow2_pos [of b] by (simp add: field_simps)
qed

lemma fl_0: "fl 0 = 0"
  by (simp add: fl_def fl_pos_def)

lemma fl_nonneg: "0 \<le> x \<Longrightarrow> 0 \<le> fl x"
  using fl_mono [of 0 x] by (simp add: fl_0)

lemma fl_pos_form:
  assumes "0 < x"
  shows "\<exists>n i. fl_pos x = of_int n * pow2 i \<and> 0 \<le> n \<and> n \<le> 2 ^ 53 \<and> - 1074 \<le> i"
proof -
  define e where "e = max (ilog2 x) (- 1022)"
  define n where "n = round_half_even (x / pow2 (e - 52))"
  have f: "fl_pos x = of_int n * pow2 (e - 52)"
    using assms by (simp add: fl_pos_def e_def n_def Let_def)
  have "(of_int 0 :: rat) \<le> x / pow2 (e - 52)" using assms pow2_pos [of "e - 52"] by simp
  then have n0: "0 \<le> n" unfolding n_def by (rule round_half_even_ge)
  have "x < pow2 (ilog2 x + 1)" using ilog2_bounds [OF assms] by simp
  also have "\<dots> \<le> pow2 (e + 1)" by (rule pow2_mono) (simp add: e_def)
  finally have "x / pow2 (e - 52) \<le> pow2 (e + 1) / pow2 (e - 52)"
    using pow2_pos [of "e - 52"] by (simp add: divide_right_mono less_imp_le)
  also have "pow2 (e + 1) / pow2 (e - 52) = pow2 53" by (simp add: pow2_divide)
  also have "pow2 53 = of_int (2 ^ 53)" by (simp add: pow2_def)
  finally have n1: "n \<le> 2 ^ 53" unfolding n_def by (rule round_half_even_le)
  have "- 1074 \<le> e - 52" by (simp add: e_def)
  then show ?thesis using f n0 n1 by blast
qed

lemma fl_pos_exact:
  assumes k0: "0 \<le> k" and k1: "k \<le> 2 ^ 53" and i: "- 1074 \<le> i"
  shows "fl_pos (of_int k * pow2 i) = of_int k * pow2 i"
proof (cases "k = 0")
  case True
  then show ?thesis by (simp add: fl_pos_def)
next
  case False
  define y where "y = of_int k * pow2 i"
  have kpos: "0 < k" using k0 False by simp
  have y: "0 < y" using kpos pow2_pos [of i] by (simp add: y_def)
  define e where "e = max (ilog2 y) (- 1022)"
  have f: "fl_pos y = of_int (round_half_even (y / pow2 (e - 52))) * pow2 (e - 52)"
    using y by (simp add: fl_pos_def e_def Let_def)
  have q: "y / pow2 (e - 52) = of_int k * pow2 (i + 52 - e)"
  proof -
    have "y / pow2 (e - 52) = of_int k * (pow2 i / pow2 (e - 52))" by (simp add: y_def)
    also have "pow2 i / pow2 (e - 52) = pow2 (i + 52 - e)"
      by (simp add: pow2_divide algebra_simps)
    finally show ?thesis .
  qed
  have "\<exists>m. y / pow2 (e - 52) = of_int m"
  proof (cases "0 \<le> i + 52 - e")
    case True
    then have "y / pow2 (e - 52) = of_int (k * 2 ^ nat (i + 52 - e))"
      by (simp add: q pow2_of_int)
    then show ?thesis by blast
  next
    case False
    then have big: "i + 53 \<le> e" by simp
    then have ee: "e = ilog2 y" using i by (simp add: e_def max_def split: if_splits)
    have "pow2 e \<le> y" using ilog2_bounds [OF y] by (simp add: ee)
    moreover have "y \<le> of_int (2 ^ 53) * pow2 i"
    proof -
      have "(of_int k :: rat) \<le> of_int (2 ^ 53)" using k1 by (simp only: of_int_le_iff)
      then show ?thesis using pow2_pos [of i] by (simp add: y_def)
    qed
    moreover have "of_int (2 ^ 53) * pow2 i = pow2 (i + 53)"
    proof -
      have "pow2 53 * pow2 i = pow2 (i + 53)" by (rule pow2_mult) simp
      then show ?thesis by (simp add: pow2_def)
    qed
    ultimately have le: "pow2 e \<le> y" "y \<le> pow2 (i + 53)" by simp_all
    then have "pow2 e \<le> pow2 (i + 53)" by simp
    then have "e \<le> i + 53" by (rule pow2_le_imp)
    then have e: "e = i + 53" using big by simp
    have "y = pow2 (i + 53)" using le by (simp add: e)
    then have "y / pow2 (e - 52) = pow2 52" by (simp add: e pow2_divide)
    then have "y / pow2 (e - 52) = of_int (2 ^ 52)" by (simp add: pow2_def)
    then show ?thesis by blast
  qed
  then obtain m where m: "y / pow2 (e - 52) = of_int m" by blast
  have "fl_pos y = of_int m * pow2 (e - 52)" by (simp add: f m)
  also have "\<dots> = y / pow2 (e - 52) * pow2 (e - 52)" by (simp add: m)
  also have "\<dots> = y" using pow2_pos [of "e - 52"] by simp
  finally show ?thesis by (simp add: y_def)
qed

lemma fl_of_int_exact: "0 \<le> k \<Longrightarrow> k \<le> 2 ^ 53 \<Longrightarrow> fl (of_int k) = of_int k"
  using fl_pos_exact [of k 0] by (simp add: fl_def pow2_def)

lemma fl_below_1000: "fl ((1 - 1 / 2 ^ 53) * 1000) < 1000"
  by code_simp

lemma float_fraction:
  assumes x0: "0 \<le> x" and fx: "fl x = x"
  shows "fl (of_int \<lfloor>x\<rfloor>) = of_int \<lfloor>x\<rfloor> \<and> fl (x - of_int \<lfloor>x\<rfloor>) = x - of_int \<lfloor>x\<rfloor>
         \<and> x - of_int \<lfloor>x\<rfloor> \<le> 1 - 1 / 2 ^ 53"
proof (cases "x = 0")
  case True
  then show ?thesis by (simp add: fl_0)
next
  case False
  then have xp: "0 < x" using x0 by simp
  have "fl_pos x = x" using fx xp by (simp add: fl_def)
  then obtain n i where x: "x = of_int n * pow2 i" and n0: "0 \<le> n" and n1: "n \<le> 2 ^ 53"
    and i: "- 1074 \<le> i"
    using fl_pos_form [OF xp] by auto
  show ?thesis
  proof (cases "0 \<le> i")
    case True
    then have xi: "x = of_int (n * 2 ^ nat i)" by (simp add: x pow2_of_int)
    have "rat_of_int \<lfloor>rat_of_int (n * 2 ^ nat i)\<rfloor> = rat_of_int (n * 2 ^ nat i)"
      by (simp only: floor_of_int)
    then have e: "of_int \<lfloor>x\<rfloor> = x" by (simp only: xi [symmetric])
    have "fl (of_int \<lfloor>x\<rfloor>) = of_int \<lfloor>x\<rfloor>" by (simp only: e fx)
    moreover have "fl (x - of_int \<lfloor>x\<rfloor>) = x - of_int \<lfloor>x\<rfloor>" by (simp only: e diff_self fl_0)
    moreover have "x - of_int \<lfloor>x\<rfloor> \<le> 1 - 1 / 2 ^ 53" by (simp only: e diff_self) simp
    ultimately show ?thesis by blast
  next
    case False
    define j where "j = nat (- i)"
    have j: "1 \<le> j" "j \<le> 1074" using False i by (simp_all add: j_def)
    have p: "pow2 i = 1 / of_int (2 ^ j)" using False by (simp add: pow2_neg j_def)
    have xq: "x = of_int n / of_int (2 ^ j)" by (simp add: x p)
    define w where "w = n div 2 ^ j"
    define k where "k = n mod 2 ^ j"
    have fw: "\<lfloor>x\<rfloor> = w" unfolding xq w_def by (rule floor_divide_of_int_eq)
    have w0: "0 \<le> w" using n0 by (simp add: w_def pos_imp_zdiv_nonneg_iff)
    have k0: "0 \<le> k" and kj: "k < 2 ^ j" by (simp_all add: k_def)
    have n: "n = w * 2 ^ j + k" by (simp only: w_def k_def div_mult_mod_eq)
    have "w * 1 \<le> w * 2 ^ j" using w0 by (intro mult_left_mono) simp_all
    then have "w \<le> n" using k0 by (simp add: n)
    then have w1: "w \<le> 2 ^ 53" using n1 by simp
    have A: "fl (of_int w) = of_int w" using w0 w1 by (rule fl_of_int_exact)
    have "0 \<le> w * 2 ^ j" using w0 by simp
    then have "k \<le> n" by (simp add: n)
    then have k1: "k \<le> 2 ^ 53" using n1 by simp
    have d: "x - of_int w = of_int k * pow2 i"
    proof -
      have "(of_int n :: rat) = of_int w * of_int (2 ^ j) + of_int k"
        by (subst n) (simp only: of_int_add of_int_mult)
      then show ?thesis by (simp add: xq p field_simps)
    qed
    have d0: "0 \<le> x - of_int w" using k0 pow2_pos [of i] by (simp add: d)
    have B: "fl (x - of_int w) = x - of_int w"
      using fl_pos_exact [OF k0 k1 i] d0 by (simp add: fl_def d)
    have C: "x - of_int w \<le> 1 - 1 / 2 ^ 53"
    proof (cases "j \<le> 53")
      case True
      have "k \<le> 2 ^ j - 1" using kj by simp
      then have "(of_int k :: rat) \<le> of_int (2 ^ j - 1)" by (simp only: of_int_le_iff)
      then have "of_int k / (of_int (2 ^ j) :: rat) \<le> of_int (2 ^ j - 1) / of_int (2 ^ j)"
        by (simp add: divide_right_mono)
      also have "\<dots> = 1 - 1 / 2 ^ j" by (simp add: field_simps)
      also have "\<dots> \<le> 1 - 1 / 2 ^ 53"
      proof -
        have "(2 :: rat) ^ j \<le> 2 ^ 53" using True by (intro power_increasing) simp_all
        then have "1 / (2 :: rat) ^ 53 \<le> 1 / 2 ^ j" by (intro divide_left_mono) simp_all
        then show ?thesis by simp
      qed
      finally show ?thesis by (simp add: d p)
    next
      case False
      then have "(2 :: rat) ^ 54 \<le> 2 ^ j" by (intro power_increasing) simp_all
      then have "1 / (2 :: rat) ^ j \<le> 1 / 2 ^ 54" by (intro divide_left_mono) simp_all
      moreover have "(of_int k :: rat) \<le> of_int (2 ^ 53)" using k1 by (simp only: of_int_le_iff)
      ultimately have "of_int k * (1 / (2 :: rat) ^ j) \<le> of_int (2 ^ 53) * (1 / 2 ^ 54)"
        using k0 by (intro mult_mono) simp_all
      then have "x - of_int w \<le> 1 / 2" by (simp add: d p)
      then show ?thesis by simp
    qed
    show ?thesis using A B C by (simp add: fw)
  qed
qed

lemma millisec_range:
  assumes x0: "0 \<le> x" and fx: "fl x = x"
  shows "py_int (fl (fl (x - fl (of_int \<lfloor>x\<rfloor>)) * 1000)) = \<lfloor>fl ((x - of_int \<lfloor>x\<rfloor>) * 1000)\<rfloor>
         \<and> 0 \<le> \<lfloor>fl ((x - of_int \<lfloor>x\<rfloor>) * 1000)\<rfloor>
         \<and> \<lfloor>fl ((x - of_int \<lfloor>x\<rfloor>) * 1000)\<rfloor> < 1000"
proof -
  note frac = float_fraction [OF x0 fx]
  define d where "d = x - of_int \<lfloor>x\<rfloor>"
  have d0: "0 \<le> d" by (simp add: d_def)
  have ms: "fl (fl (x - fl (of_int \<lfloor>x\<rfloor>)) * 1000) = fl (d * 1000)"
    using frac by (simp add: d_def)
  have lo: "0 \<le> fl (d * 1000)" using d0 by (intro fl_nonneg) simp
  have "d * 1000 \<le> (1 - 1 / 2 ^ 53) * 1000" using frac by (simp add: d_def)
  then have "fl (d * 1000) \<le> fl ((1 - 1 / 2 ^ 53) * 1000)" by (rule fl_mono)
  then have hi: "fl (d * 1000) < 1000" using fl_below_1000 by simp
  have "py_int (fl (d * 1000)) = \<lfloor>fl (d * 1000)\<rfloor>" using lo by (simp add: py_int_def)
  moreover have "0 \<le> \<lfloor>fl (d * 1000)\<rfloor>" using lo by simp
  moreover have "\<lfloor>fl (d * 1000)\<rfloor> < 1000" using hi by (simp add: floor_less_iff)
  ultimately show ?thesis by (simp add: ms d_def)
qed

lemma fl_idem: "fl (fl y) = fl y"
proof -
  have pos: "fl_pos (fl_pos x) = fl_pos x" if "0 \<le> x" for x
  proof (cases "x = 0")
    case True
    then show ?thesis by (simp add: fl_pos_def)
  next
    case False
    then have "0 < x" using that by simp
    then obtain n i where "fl_pos x = of_int n * pow2 i" "0 \<le> n" "n \<le> 2 ^ 53" "- 1074 \<le> i"
      using fl_pos_form by blast
    then show ?thesis using fl_pos_exact [of n i] by simp
  qed
  have nn: "fl z = fl_pos z" if "0 \<le> z" for z
    using that by (simp add: fl_def)
  show ?thesis
  proof (cases "y < 0")
    case True
    have z: "0 \<le> fl_pos (- y)" using True by (intro fl_pos_nonneg) simp
    have "fl (- fl_pos (- y)) = - fl_pos (fl_pos (- y))"
    proof (cases "fl_pos (- y) = 0")
      case True
      then show ?thesis by (simp add: fl_0 fl_pos_def)
    next
      case False
      then show ?thesis using z by (simp add: fl_def)
    qed
    also have "\<dots> = - fl_pos (- y)" using True by (simp add: pos)
    finally show ?thesis using True by (simp add: fl_def)
  next
    case False
    then have "fl y = fl_pos y" by (simp add: fl_def)
    moreover have "0 \<le> fl_pos y" using False by (intro fl_pos_nonneg) simp
    ultimately show ?thesis using False by (simp add: nn pos)
  qed
qed

lemma float_truediv: "fl (truediv a b) = truediv a b"
  by (simp add: truediv_def fl_idem)

section \<open>The tests of the loop, in milliseconds\<close>

lemma truediv_mono: "a \<le> b \<Longrightarrow> truediv a 1000 \<le> truediv b 1000"
  unfolding truediv_def by (rule fl_mono) (simp add: divide_right_mono)

lemma fl_699: "fl (699 / 1000) < fl (7 / 10)"
  by code_simp

lemma fl_6999: "fl (6999 / 1000) < 7"
  by code_simp

lemma fl_7: "fl 7 = 7"
  by code_simp

lemma pause_test_iff: "(MAX_PAUSE_S \<le> truediv d 1000) = (700 \<le> d)"
proof (cases "700 \<le> d")
  case True
  then have "(7 / 10 :: rat) \<le> of_int d / of_int 1000" by simp
  then have "fl (7 / 10) \<le> fl (of_int d / of_int 1000)" by (rule fl_mono)
  then show ?thesis using True by (simp add: MAX_PAUSE_S_def truediv_def)
next
  case False
  then have "of_int d / of_int 1000 \<le> (699 / 1000 :: rat)" by simp
  then have "fl (of_int d / of_int 1000) \<le> fl (699 / 1000)" by (rule fl_mono)
  then have "fl (of_int d / of_int 1000) < fl (7 / 10)" using fl_699 by simp
  then show ?thesis using False by (simp add: MAX_PAUSE_S_def truediv_def)
qed

lemma duration_test_iff: "(of_int MAX_DURATION_S \<le> truediv d 1000) = (7000 \<le> d)"
proof (cases "7000 \<le> d")
  case True
  then have "(7 :: rat) \<le> of_int d / of_int 1000" by simp
  then have "fl 7 \<le> fl (of_int d / of_int 1000)" by (rule fl_mono)
  then show ?thesis using True by (simp add: MAX_DURATION_S_def truediv_def fl_7)
next
  case False
  then have "of_int d / of_int 1000 \<le> (6999 / 1000 :: rat)" by simp
  then have "fl (of_int d / of_int 1000) \<le> fl (6999 / 1000)" by (rule fl_mono)
  then have "fl (of_int d / of_int 1000) < 7" using fl_6999 by simp
  then show ?thesis using False by (simp add: MAX_DURATION_S_def truediv_def)
qed

lemma should_start_new_block_iff:
  "should_start_new_block g w =
     (700 \<le> start w - end (last g)
      \<or> 80 < length (join '' '' (map text g)) + length (text w) + 1
      \<or> 7000 \<le> end w - start (hd g))"
  by (simp add: should_start_new_block_def Let_def pause_test_iff duration_test_iff MAX_CHARS_def)

lemma run_loop_Nil: "run_loop [] = init_state"
  by (simp add: run_loop_def)

lemma run_loop_snoc: "run_loop (ws @ [w]) = loop_body (run_loop ws) w"
  by (simp add: run_loop_def)

lemma current_nonempty: "ws \<noteq> [] \<Longrightarrow> current_block_words (run_loop ws) \<noteq> []"
  by (induction ws rule: rev_induct) (simp_all add: run_loop_snoc loop_body_def)

lemma counter_written: "srt_counter (run_loop ws) = 1 + int (length (written (run_loop ws)))"
  by (induction ws rule: rev_induct) (simp_all add: run_loop_Nil init_state_def run_loop_snoc loop_body_def)

lemma indices_written: "map fst (written (run_loop ws)) = [1 .. int (length (written (run_loop ws)))]"
proof (induction ws rule: rev_induct)
  case Nil
  then show ?case by (simp add: run_loop_Nil init_state_def)
next
  case (snoc w ws)
  then show ?case
    by (simp add: run_loop_snoc loop_body_def counter_written upto_rec2)
qed

lemma concat_written: "concat (map snd (written (run_loop ws))) @ current_block_words (run_loop ws) = ws"
proof (induction ws rule: rev_induct)
  case Nil
  then show ?case by (simp add: run_loop_Nil init_state_def)
next
  case (snoc w ws)
  show ?case
  proof (cases "current_block_words (run_loop ws) = []")
    case True
    then show ?thesis using snoc by (simp add: run_loop_snoc loop_body_def)
  next
    case False
    then show ?thesis using snoc [symmetric] by (simp add: run_loop_snoc loop_body_def)
  qed
qed

section \<open>Invariants of the loop\<close>

lemma create_speaker_srt_Nil: "create_speaker_srt [] = ([], 1)"
  by (simp add: create_speaker_srt_def init_state_def)

lemma create_speaker_srt_nonempty:
  "ws \<noteq> [] \<Longrightarrow> create_speaker_srt ws =
     (written (run_loop ws) @ [(srt_counter (run_loop ws), current_block_words (run_loop ws))],
      srt_counter (run_loop ws) + 1)"
  by (simp add: create_speaker_srt_def Let_def current_nonempty)

lemma groups_Nil: "groups [] = []"
  by (simp add: groups_def create_speaker_srt_Nil)

lemma groups_nonempty:
  "ws \<noteq> [] \<Longrightarrow> groups ws = map snd (written (run_loop ws)) @ [current_block_words (run_loop ws)]"
  by (simp add: groups_def create_speaker_srt_nonempty)

lemma concat_groups: "concat (groups ws) = ws"
proof (cases "ws = []")
  case True
  then show ?thesis by (simp add: groups_Nil)
next
  case False
  then show ?thesis using concat_written [of ws] by (simp add: groups_nonempty)
qed

lemma written_invariant:
  assumes seed: "\<And>w. P [w]"
    and ext: "\<And>g w. g \<noteq> [] \<Longrightarrow> P g \<Longrightarrow> \<not> should_start_new_block g w \<Longrightarrow> P (g @ [w])"
  shows "(\<forall>e\<in>set (written (run_loop ws)). P (snd e))
         \<and> (current_block_words (run_loop ws) \<noteq> [] \<longrightarrow> P (current_block_words (run_loop ws)))"
proof (induction ws rule: rev_induct)
  case Nil
  then show ?case by (simp add: run_loop_Nil init_state_def)
next
  case (snoc w ws)
  show ?case
  proof (cases "current_block_words (run_loop ws) = []")
    case True
    then show ?thesis using snoc seed by (simp add: run_loop_snoc loop_body_def)
  next
    case False
    then show ?thesis using snoc seed ext [of "current_block_words (run_loop ws)" w]
      by (simp add: run_loop_snoc loop_body_def)
  qed
qed

lemma groups_invariant:
  assumes seed: "\<And>w. P [w]"
    and ext: "\<And>g w. g \<noteq> [] \<Longrightarrow> P g \<Longrightarrow> \<not> should_start_new_block g w \<Longrightarrow> P (g @ [w])"
    and g: "g \<in> set (groups ws)"
  shows "P g"
proof (cases "ws = []")
  case True
  then show ?thesis using g by (simp add: groups_Nil)
next
  case False
  then show ?thesis
    using g written_invariant [of P ws, OF seed ext] current_nonempty [OF False]
    by (auto simp: groups_nonempty)
qed

lemma groups_not_Nil: "g \<in> set (groups ws) \<Longrightarrow> g \<noteq> []"
  by (rule groups_invariant [where P = "\<lambda>g. g \<noteq> []"]) simp_all

lemma indices_groups: "map fst (fst (create_speaker_srt ws)) = [1 .. int (length (groups ws))]"
proof (cases "ws = []")
  case True
  then show ?thesis by (simp add: create_speaker_srt_Nil groups_Nil)
next
  case False
  then show ?thesis using indices_written [of ws]
    by (simp add: create_speaker_srt_nonempty groups_nonempty counter_written upto_rec2)
qed

lemma index_write_block: "index (write_block e) = fst e"
  by (cases e) (simp add: write_block_def)

lemma length_cues: "length (cues ws) = length (groups ws)"
  by (simp add: cues_def groups_def)

lemma final_counter: "snd (create_speaker_srt ws) = int (length (groups ws)) + 1"
proof (cases "ws = []")
  case True
  then show ?thesis by (simp add: create_speaker_srt_Nil groups_Nil)
next
  case False
  then show ?thesis by (simp add: create_speaker_srt_nonempty groups_nonempty counter_written)
qed

lemma written_zip: "fst (create_speaker_srt ws) = zip [1 .. int (length (groups ws))] (groups ws)"
proof -
  have "fst (create_speaker_srt ws) = zip (map fst (fst (create_speaker_srt ws))) (map snd (fst (create_speaker_srt ws)))"
    by (simp add: zip_map_fst_snd)
  then show ?thesis by (simp add: indices_groups groups_def [symmetric])
qed

lemma cues_nth:
  assumes "k < length (groups ws)"
  shows "cues ws ! k = write_block (int k + 1, groups ws ! k)"
proof -
  have "length [1 .. int (length (groups ws))] = length (groups ws)" by simp
  then have "fst (create_speaker_srt ws) ! k = ([1 .. int (length (groups ws))] ! k, groups ws ! k)"
    using assms by (simp add: written_zip)
  moreover have "[1 .. int (length (groups ws))] ! k = 1 + int k" using assms by simp
  moreover have "k < length (fst (create_speaker_srt ws))" using assms by (simp add: groups_def)
  ultimately show ?thesis by (simp add: cues_def add.commute)
qed

section \<open>Groups, order and formatting\<close>

lemma exact_pause_iff: "((7 / 10 :: rat) \<le> of_int d / 1000) = (700 \<le> d)"
proof -
  have "((7 / 10 :: rat) \<le> of_int d / 1000) = ((of_int 700 :: rat) \<le> of_int d)" by simp
  then show ?thesis by (simp only: of_int_le_iff)
qed

lemma exact_duration_iff: "((7 :: rat) \<le> of_int d / 1000) = (7000 \<le> d)"
proof -
  have "((7 :: rat) \<le> of_int d / 1000) = ((of_int 7000 :: rat) \<le> of_int d)" by simp
  then show ?thesis by (simp only: of_int_le_iff)
qed

lemma spec_trigger_iff: "spec_trigger g w = should_start_new_block g w"
  unfolding spec_trigger_def should_start_new_block_iff exact_pause_iff exact_duration_iff ..

lemma loop_body_break:
  "current_block_words s \<noteq> [] \<Longrightarrow> should_start_new_block (current_block_words s) w \<Longrightarrow>
   loop_body s w = s\<lparr>written := written s @ [(srt_counter s, current_block_words s)],
                      srt_counter := srt_counter s + 1,
                      current_block_words := [w]\<rparr>"
  by (simp add: loop_body_def)

lemma loop_body_append:
  "current_block_words s \<noteq> [] \<Longrightarrow> \<not> should_start_new_block (current_block_words s) w \<Longrightarrow>
   loop_body s w = s\<lparr>current_block_words := current_block_words s @ [w]\<rparr>"
  by (simp add: loop_body_def)

lemma join_snoc: "xs \<noteq> [] \<Longrightarrow> join sep (xs @ [x]) = join sep xs @ sep @ x"
  by (induction sep xs rule: join.induct) simp_all

lemma length_le_join: "x \<in> set xs \<Longrightarrow> length x \<le> length (join sep xs)"
  by (induction sep xs rule: join.induct) auto

lemma group_text_bound:
  assumes "g \<in> set (groups ws)"
  shows "length (join '' '' (map text g)) \<le> 80 \<or> (\<exists>w. g = [w] \<and> 80 < length (text w))"
proof (rule groups_invariant [where P = "\<lambda>g. length (join '' '' (map text g)) \<le> 80 \<or> (\<exists>w. g = [w] \<and> 80 < length (text w))", OF _ _ assms])
  fix w :: word
  show "length (join '' '' (map text [w])) \<le> 80 \<or> (\<exists>w'. [w] = [w'] \<and> 80 < length (text w'))"
    by (cases "length (text w) \<le> 80") simp_all
next
  fix g :: "word list" and w :: word
  assume "g \<noteq> []" and "\<not> should_start_new_block g w"
  then show "length (join '' '' (map text (g @ [w]))) \<le> 80 \<or> (\<exists>w'. g @ [w] = [w'] \<and> 80 < length (text w'))"
    by (simp add: should_start_new_block_iff join_snoc)
qed

lemma long_word_alone:
  assumes "g \<in> set (groups ws)" and "w \<in> set g" and "80 < length (text w)"
  shows "g = [w]"
proof -
  have "\<forall>w\<in>set g. 80 < length (text w) \<longrightarrow> g = [w]"
  proof (rule groups_invariant [where P = "\<lambda>g. \<forall>w\<in>set g. 80 < length (text w) \<longrightarrow> g = [w]", OF _ _ assms(1)])
    fix w :: word
    show "\<forall>v\<in>set [w]. 80 < length (text v) \<longrightarrow> [w] = [v]" by simp
  next
    fix g :: "word list" and w :: word
    assume g: "g \<noteq> []" and n: "\<not> should_start_new_block g w"
    have b: "length (join '' '' (map text g)) + length (text w) + 1 \<le> 80"
      using n by (simp add: should_start_new_block_iff)
    have "length (text v) \<le> 80" if "v \<in> set g" for v
      using length_le_join [of "text v" "map text g" "'' ''"] that b by simp
    moreover have "length (text w) \<le> 80" using b by simp
    ultimately show "\<forall>v\<in>set (g @ [w]). 80 < length (text v) \<longrightarrow> g @ [w] = [v]"
      by (auto simp: not_less [symmetric])
  qed
  then show ?thesis using assms by simp
qed

lemma group_span_bound:
  assumes "g \<in> set (groups ws)"
  shows "2 \<le> length g \<longrightarrow> end (last g) - start (hd g) < 7000"
proof (rule groups_invariant [where P = "\<lambda>g. 2 \<le> length g \<longrightarrow> end (last g) - start (hd g) < 7000", OF _ _ assms])
  fix w :: word
  show "2 \<le> length [w] \<longrightarrow> end (last [w]) - start (hd [w]) < 7000" by simp
next
  fix g :: "word list" and w :: word
  assume "g \<noteq> []" and "\<not> should_start_new_block g w"
  then show "2 \<le> length (g @ [w]) \<longrightarrow> end (last (g @ [w])) - start (hd (g @ [w])) < 7000"
    by (simp add: should_start_new_block_iff)
qed

lemma groups_single: "groups [w] = [[w]]"
  by (simp add: groups_def create_speaker_srt_def run_loop_def loop_body_def init_state_def)

lemma sorted_concat_member:
  "sorted (map f (concat gs)) \<Longrightarrow> g \<in> set gs \<Longrightarrow> sorted (map f g)"
  by (induction gs) (auto simp: sorted_append)

lemma sorted_hd_le_last:
  assumes "sorted (map f g)" and "g \<noteq> []"
  shows "f (hd g) \<le> f (last g)"
proof (cases g)
  case Nil
  then show ?thesis using assms by simp
next
  case (Cons x xs)
  show ?thesis
  proof (cases "xs = []")
    case True
    then show ?thesis by (simp add: Cons)
  next
    case False
    then have "last xs \<in> set xs" by simp
    then show ?thesis using assms(1) False by (auto simp: Cons)
  qed
qed

lemma boundary_words:
  "successively R (concat gs) \<Longrightarrow> \<forall>g\<in>set gs. g \<noteq> [] \<Longrightarrow> Suc k < length gs \<Longrightarrow>
   R (last (gs ! k)) (hd (gs ! Suc k))"
proof (induction gs arbitrary: k)
  case Nil
  then show ?case by simp
next
  case (Cons g gs)
  from Cons.prems(3) obtain h hs where gs: "gs = h # hs" by (cases gs) auto
  have h: "h \<noteq> []" and g: "g \<noteq> []" using Cons.prems(2) by (simp_all add: gs)
  have s: "successively R (concat gs)" and b: "R (last g) (hd (concat gs))"
    using Cons.prems(1) g h by (simp_all add: successively_append_iff gs)
  show ?case
  proof (cases k)
    case 0
    then show ?thesis using b h by (simp add: gs)
  next
    case (Suc j)
    then show ?thesis using Cons.IH [OF s, of j] Cons.prems(2,3) by simp
  qed
qed

lemma start_s_write_block: "start_s (write_block (i, g)) = truediv (start (hd g)) 1000"
  by (simp add: write_block_def)

lemma end_s_write_block: "end_s (write_block (i, g)) = truediv (end (last g)) 1000"
  by (simp add: write_block_def)

lemma cue_of_group:
  assumes "c \<in> set (cues ws)"
  shows "\<exists>i g. g \<in> set (groups ws) \<and> c = write_block (i, g)"
proof -
  from assms obtain e where e: "e \<in> set (fst (create_speaker_srt ws))" and c: "c = write_block e"
    by (auto simp: cues_def)
  have "snd e \<in> set (groups ws)" using e by (auto simp: groups_def)
  then show ?thesis using c by (cases e) auto
qed

lemma cues_successive:
  assumes "successively (\<lambda>a b. end a \<le> start b) ws"
  shows "successively (\<lambda>c d. end_s c \<le> start_s d) (cues ws)"
proof -
  have "end_s (cues ws ! k) \<le> start_s (cues ws ! Suc k)" if k: "Suc k < length (cues ws)" for k
  proof -
    have kg: "Suc k < length (groups ws)" using k by (simp add: length_cues)
    have "successively (\<lambda>a b. end a \<le> start b) (concat (groups ws))"
      using assms by (simp add: concat_groups)
    moreover have "\<forall>g\<in>set (groups ws). g \<noteq> []" using groups_not_Nil by blast
    ultimately have "end (last (groups ws ! k)) \<le> start (hd (groups ws ! Suc k))"
      using kg by (rule boundary_words)
    then have "truediv (end (last (groups ws ! k))) 1000 \<le> truediv (start (hd (groups ws ! Suc k))) 1000"
      by (rule truediv_mono)
    moreover have "cues ws ! k = write_block (int k + 1, groups ws ! k)"
      using kg by (simp add: cues_nth)
    moreover have "cues ws ! Suc k = write_block (int (Suc k) + 1, groups ws ! Suc k)"
      using kg by (rule cues_nth)
    ultimately show ?thesis by (simp add: start_s_write_block end_s_write_block)
  qed
  then show ?thesis by (simp add: successively_conv_nth)
qed

lemma truediv_500_1000: "truediv 500 1000 < truediv 1000 1000"
  by code_simp

lemma str_nat_one_digit: "n < 10 \<Longrightarrow> str_nat n = [digit_char n]"
  by (simp add: str_nat.simps)

lemma str_nat_two_digits:
  "10 \<le> n \<Longrightarrow> n < 100 \<Longrightarrow> str_nat n = [digit_char (n div 10), digit_char (n mod 10)]"
  using str_nat.simps [of n] by (simp add: str_nat_one_digit)

lemma str_nat_three_digits:
  assumes "100 \<le> n" and "n < 1000"
  shows "str_nat n = [digit_char (n div 100), digit_char (n div 10 mod 10), digit_char (n mod 10)]"
proof -
  have "str_nat n = str_nat (n div 10) @ [digit_char (n mod 10)]"
    using assms str_nat.simps [of n] by simp
  moreover have "str_nat (n div 10) = [digit_char (n div 10 div 10), digit_char (n div 10 mod 10)]"
    using assms by (intro str_nat_two_digits) auto
  moreover have "n div 10 div 10 = n div 100" by (simp add: div_mult2_eq)
  ultimately show ?thesis by simp
qed

lemma length_str_nat_pos: "1 \<le> length (str_nat n)"
  by (subst str_nat.simps) simp

lemma fmt_0d_2_digits:
  assumes "0 \<le> n" and "n < 100"
  shows "fmt_0d 2 n = [digit_char (nat (n div 10)), digit_char (nat (n mod 10))]"
proof (cases "n < 10")
  case True
  then have "str_nat (nat n) = [digit_char (nat n)]" using assms by (simp add: str_nat_one_digit)
  moreover have "nat (n div 10) = 0" "nat (n mod 10) = nat n" using True assms by simp_all
  ultimately show ?thesis using assms by (simp add: fmt_0d_def zero_pad_def digit_char_def)
next
  case False
  then have "str_nat (nat n) = [digit_char (nat n div 10), digit_char (nat n mod 10)]"
    using assms by (intro str_nat_two_digits) auto
  moreover have "nat (n div 10) = nat n div 10" "nat (n mod 10) = nat n mod 10"
    using assms by (simp_all add: nat_div_distrib nat_mod_distrib)
  ultimately show ?thesis using assms by (simp add: fmt_0d_def zero_pad_def)
qed

lemma fmt_0d_3_digits:
  assumes "0 \<le> n" and "n < 1000"
  shows "fmt_0d 3 n = [digit_char (nat (n div 100)), digit_char (nat (n div 10 mod 10)),
                       digit_char (nat (n mod 10))]"
proof -
  define k where "k = nat n"
  have n: "n = int k" and k: "k < 1000" using assms by (simp_all add: k_def)
  have d: "nat (n div 100) = k div 100" "nat (n div 10 mod 10) = k div 10 mod 10" "nat (n mod 10) = k mod 10"
    by (simp_all add: n nat_div_distrib nat_mod_distrib)
  consider "k < 10" | "10 \<le> k" "k < 100" | "100 \<le> k" by linarith
  then have "zero_pad 3 (str_nat k) = [digit_char (k div 100), digit_char (k div 10 mod 10), digit_char (k mod 10)]"
  proof cases
    case 1
    then show ?thesis by (simp add: str_nat_one_digit zero_pad_def digit_char_def numeral_3_eq_3)
  next
    case 2
    then show ?thesis by (simp add: str_nat_two_digits zero_pad_def digit_char_def)
  next
    case 3
    then show ?thesis using k by (simp add: str_nat_three_digits zero_pad_def)
  qed
  then show ?thesis using assms by (simp add: fmt_0d_def d k_def)
qed

lemma fmt_0d_2_large: "100 \<le> n \<Longrightarrow> fmt_0d 2 n = str_nat (nat n)"
proof -
  assume n: "100 \<le> n"
  then have "\<not> nat n < 10" by simp
  then have "str_nat (nat n) = str_nat (nat n div 10) @ [digit_char (nat n mod 10)]"
    by (subst str_nat.simps) simp
  moreover have "1 \<le> length (str_nat (nat n div 10))" by (rule length_str_nat_pos)
  ultimately have "2 \<le> length (str_nat (nat n))" by simp
  then show ?thesis using n by (simp add: fmt_0d_def zero_pad_def)
qed

lemma py_int_nonneg: "0 \<le> x \<Longrightarrow> py_int x = \<lfloor>x\<rfloor>"
  by (simp add: py_int_def)

lemma format_3661_25: "format_srt_time (366125 / 100) = ''01:01:01,250''"
  by code_simp

lemma format_0: "format_srt_time 0 = ''00:00:00,000''"
  by code_simp

lemma format_90000: "format_srt_time 360000 = ''100:00:00,000''"
  by code_simp

lemma format_trunc: "format_srt_time (fl (19999 / 10000)) = ''00:00:01,999''"
  by code_simp

lemma fl_366125: "fl (366125 / 100) = 366125 / 100"
  by code_simp

text \<open>
  Truncation shows in the file: the float nearest to 2.001 lies below 2.001, so a word
  that starts at 2001 ms is printed with 000 milliseconds.
\<close>

lemma format_2001_ms: "format_srt_time (truediv 2001 1000) = ''00:00:02,000''"
  by code_simp

lemmas run_simps = groups_def cues_def create_speaker_srt_def run_loop_def loop_body_def init_state_def
  should_start_new_block_iff Let_def

section \<open>The claims\<close>

text \<open>
  C1. Let \<open>pre\<close> be a non-empty sequence of words already consumed and \<open>w\<close> the next
  word. The open block \<open>g\<close> after \<open>pre\<close> is not empty. If one of the three triggers of
  the specification holds (a pause of at least 0.7 s after the last word of \<open>g\<close>, a
  joined text of \<open>g\<close> plus \<open>w\<close> plus one space longer than 80 characters, a span of at
  least 7 s from the start of the first word of \<open>g\<close> to the end of \<open>w\<close>), the loop
  writes \<open>g\<close> as a block, increments the counter and opens the block \<open>[w]\<close>; otherwise
  it appends \<open>w\<close> to \<open>g\<close> and writes nothing. So the break before \<open>w\<close> happens if
  and only if some trigger holds. The triggers are stated on exact quotients; the float
  comparisons of the program decide them exactly.
\<close>

theorem break_iff_trigger:
  assumes "pre \<noteq> []"
  shows "let s = run_loop pre; g = current_block_words s; s' = run_loop (pre @ [w])
         in g \<noteq> []
            \<and> (if spec_trigger g w
                then s' = s\<lparr>written := written s @ [(srt_counter s, g)],
                            srt_counter := srt_counter s + 1,
                            current_block_words := [w]\<rparr>
                else s' = s\<lparr>current_block_words := g @ [w]\<rparr>)
            \<and> ((written s' = written s @ [(srt_counter s, g)] \<and> current_block_words s' = [w])
                 = spec_trigger g w)"
proof -
  have g: "current_block_words (run_loop pre) \<noteq> []" using assms by (rule current_nonempty)
  show ?thesis
  proof (cases "should_start_new_block (current_block_words (run_loop pre)) w")
    case True
    then show ?thesis using g
      by (simp add: Let_def spec_trigger_iff run_loop_snoc loop_body_break)
  next
    case False
    then show ?thesis using g
      by (simp add: Let_def spec_trigger_iff run_loop_snoc loop_body_append)
  qed
qed

theorem break_iff_trigger_witness:
  "[\<lparr>text = ''a'', start = 0, end = 500\<rparr>] \<noteq> []
   \<and> current_block_words (run_loop [\<lparr>text = ''a'', start = 0, end = 500\<rparr>]) = [\<lparr>text = ''a'', start = 0, end = 500\<rparr>]
   \<and> spec_trigger [\<lparr>text = ''a'', start = 0, end = 500\<rparr>] \<lparr>text = ''b'', start = 2000, end = 2500\<rparr>
   \<and> run_loop ([\<lparr>text = ''a'', start = 0, end = 500\<rparr>] @ [\<lparr>text = ''b'', start = 2000, end = 2500\<rparr>])
       = \<lparr>written = [(1, [\<lparr>text = ''a'', start = 0, end = 500\<rparr>])], srt_counter = 2,
          current_block_words = [\<lparr>text = ''b'', start = 2000, end = 2500\<rparr>]\<rparr>"
proof -
  have h: "[\<lparr>text = ''a'', start = 0, end = 500\<rparr>] \<noteq> []" by simp
  have c: "current_block_words (run_loop [\<lparr>text = ''a'', start = 0, end = 500\<rparr>]) = [\<lparr>text = ''a'', start = 0, end = 500\<rparr>]"
    by (simp add: run_simps)
  have t: "spec_trigger [\<lparr>text = ''a'', start = 0, end = 500\<rparr>] \<lparr>text = ''b'', start = 2000, end = 2500\<rparr>"
    by (simp add: spec_trigger_def)
  show ?thesis
    using break_iff_trigger [OF h, of "\<lparr>text = ''b'', start = 2000, end = 2500\<rparr>"] c t
    by (simp add: Let_def run_loop_def loop_body_def init_state_def)
qed

text \<open>
  C2. The cues written correspond one to one, in order, to the groups closed. The cue of
  the \<open>k\<close>-th group (counting from 0) has index \<open>k + 1\<close>, as start the start of the
  first word of the group divided by 1000, as end the end of its last word divided by
  1000, and as text the texts of its words joined by single spaces. The counter starts
  at 1 and ends at the number of cues plus one. For a non-empty input the block that is
  open when the words are used up is not empty and is written as the last cue.
\<close>

theorem cue_emission:
  "length (cues ws) = length (groups ws)
   \<and> (\<forall>k<length (groups ws).
         cues ws ! k =
           \<lparr>index = int k + 1,
            start_s = truediv (start (hd (groups ws ! k))) 1000,
            end_s = truediv (end (last (groups ws ! k))) 1000,
            cue_text = join '' '' (map text (groups ws ! k))\<rparr>)
   \<and> srt_counter (run_loop []) = 1
   \<and> snd (create_speaker_srt ws) = int (length (cues ws)) + 1
   \<and> (ws \<noteq> [] \<longrightarrow>
        current_block_words (run_loop ws) \<noteq> []
        \<and> groups ws = map snd (written (run_loop ws)) @ [current_block_words (run_loop ws)])"
  by (simp add: length_cues cues_nth write_block_def run_loop_Nil init_state_def final_counter
      current_nonempty groups_nonempty)

theorem cue_emission_witness:
  "groups [\<lparr>text = ''a'', start = 0, end = 500\<rparr>, \<lparr>text = ''b'', start = 2000, end = 2500\<rparr>]
     = [[\<lparr>text = ''a'', start = 0, end = 500\<rparr>], [\<lparr>text = ''b'', start = 2000, end = 2500\<rparr>]]
   \<and> cues [\<lparr>text = ''a'', start = 0, end = 500\<rparr>, \<lparr>text = ''b'', start = 2000, end = 2500\<rparr>] ! 1
     = \<lparr>index = 2, start_s = truediv 2000 1000, end_s = truediv 2500 1000, cue_text = ''b''\<rparr>
   \<and> [\<lparr>text = ''a'', start = 0, end = 500\<rparr>, \<lparr>text = ''b'', start = 2000, end = 2500\<rparr>] \<noteq> []
   \<and> current_block_words (run_loop [\<lparr>text = ''a'', start = 0, end = 500\<rparr>, \<lparr>text = ''b'', start = 2000, end = 2500\<rparr>])
       = last (groups [\<lparr>text = ''a'', start = 0, end = 500\<rparr>, \<lparr>text = ''b'', start = 2000, end = 2500\<rparr>])"
proof -
  have g: "groups [\<lparr>text = ''a'', start = 0, end = 500\<rparr>, \<lparr>text = ''b'', start = 2000, end = 2500\<rparr>]
     = [[\<lparr>text = ''a'', start = 0, end = 500\<rparr>], [\<lparr>text = ''b'', start = 2000, end = 2500\<rparr>]]"
    by (simp add: run_simps)
  show ?thesis
    using cue_emission [of "[\<lparr>text = ''a'', start = 0, end = 500\<rparr>, \<lparr>text = ''b'', start = 2000, end = 2500\<rparr>]"]
    by (simp add: g)
qed

text \<open>
  C3, as amended. For words with non-decreasing starts, each ending no earlier than it
  starts, and each ending no later than the next word starts, every cue ends no later
  than the next cue starts. The third hypothesis is the one the proof needs
  (\<open>cues_successive\<close>); without it the property fails, as the counterexample shows.
\<close>

theorem cues_do_not_overlap:
  assumes "sorted (map start ws)" and "\<forall>w\<in>set ws. start w \<le> end w"
    and "successively (\<lambda>a b. end a \<le> start b) ws"
  shows "successively (\<lambda>c d. end_s c \<le> start_s d) (cues ws)"
  using assms(3) by (rule cues_successive)

theorem cues_do_not_overlap_witness:
  "sorted (map start [\<lparr>text = ''a'', start = 0, end = 500\<rparr>, \<lparr>text = ''b'', start = 2000, end = 2500\<rparr>])
   \<and> start \<lparr>text = ''a'', start = 0, end = 500\<rparr> \<le> end \<lparr>text = ''a'', start = 0, end = 500\<rparr>
   \<and> start \<lparr>text = ''b'', start = 2000, end = 2500\<rparr> \<le> end \<lparr>text = ''b'', start = 2000, end = 2500\<rparr>
   \<and> end \<lparr>text = ''a'', start = 0, end = 500\<rparr> \<le> start \<lparr>text = ''b'', start = 2000, end = 2500\<rparr>
   \<and> cues [\<lparr>text = ''a'', start = 0, end = 500\<rparr>, \<lparr>text = ''b'', start = 2000, end = 2500\<rparr>]
      = [write_block (1, [\<lparr>text = ''a'', start = 0, end = 500\<rparr>]),
         write_block (2, [\<lparr>text = ''b'', start = 2000, end = 2500\<rparr>])]
   \<and> end_s (write_block (1, [\<lparr>text = ''a'', start = 0, end = 500\<rparr>]))
       \<le> start_s (write_block (2, [\<lparr>text = ''b'', start = 2000, end = 2500\<rparr>]))"
proof -
  have h1: "sorted (map start [\<lparr>text = ''a'', start = 0, end = 500\<rparr>, \<lparr>text = ''b'', start = 2000, end = 2500\<rparr>])"
    by simp
  have h2: "\<forall>w\<in>set [\<lparr>text = ''a'', start = 0, end = 500\<rparr>, \<lparr>text = ''b'', start = 2000, end = 2500\<rparr>]. start w \<le> end w"
    by simp
  have h3: "successively (\<lambda>a b. end a \<le> start b) [\<lparr>text = ''a'', start = 0, end = 500\<rparr>, \<lparr>text = ''b'', start = 2000, end = 2500\<rparr>]"
    by simp
  have c: "cues [\<lparr>text = ''a'', start = 0, end = 500\<rparr>, \<lparr>text = ''b'', start = 2000, end = 2500\<rparr>]
      = [write_block (1, [\<lparr>text = ''a'', start = 0, end = 500\<rparr>]),
         write_block (2, [\<lparr>text = ''b'', start = 2000, end = 2500\<rparr>])]"
    by (simp add: run_simps)
  show ?thesis using cues_do_not_overlap [OF h1 h2 h3] h1 by (simp add: c)
qed

text \<open>
  Without the third hypothesis the property fails. Two words with starts 0 and 500,
  the first ending at 1000 and the second at 8000, have non-decreasing starts and end
  after they start. The duration test closes the first block before the second word,
  and the first cue ends at 1 s while the second cue starts at 0.5 s.
\<close>

theorem cues_overlap_counterexample:
  "start \<lparr>text = ''a'', start = 0, end = 1000\<rparr> \<le> start \<lparr>text = ''b'', start = 500, end = 8000\<rparr>
   \<and> start \<lparr>text = ''a'', start = 0, end = 1000\<rparr> \<le> end \<lparr>text = ''a'', start = 0, end = 1000\<rparr>
   \<and> start \<lparr>text = ''b'', start = 500, end = 8000\<rparr> \<le> end \<lparr>text = ''b'', start = 500, end = 8000\<rparr>
   \<and> length (cues [\<lparr>text = ''a'', start = 0, end = 1000\<rparr>, \<lparr>text = ''b'', start = 500, end = 8000\<rparr>]) = 2
   \<and> \<not> end_s (cues [\<lparr>text = ''a'', start = 0, end = 1000\<rparr>, \<lparr>text = ''b'', start = 500, end = 8000\<rparr>] ! 0)
        \<le> start_s (cues [\<lparr>text = ''a'', start = 0, end = 1000\<rparr>, \<lparr>text = ''b'', start = 500, end = 8000\<rparr>] ! 1)"
  using truediv_500_1000
  by (simp add: cues_def create_speaker_srt_def run_loop_def loop_body_def init_state_def
      should_start_new_block_iff write_block_def)

text \<open>
  C4. For a non-negative float argument \<open>format_srt_time\<close> returns \<open>HH:MM:SS,mmm\<close>.
  Whole seconds are the argument truncated; hours are the whole seconds divided by 3600
  with no reduction modulo 24, written with two digits below 100 and with all their
  digits from 100 on; minutes and seconds are below 60 and written with two digits each;
  milliseconds are the float product of the fractional part and 1000, truncated, which
  lies between 0 and 999 and is written with three digits. In particular 3661.25 gives
  \<open>01:01:01,250\<close>, 0 gives \<open>00:00:00,000\<close>, 360000 gives \<open>100:00:00,000\<close>, and the
  float 1.9999 gives \<open>00:00:01,999\<close> (truncated, not rounded). The hypothesis
  \<open>fl seconds = seconds\<close> says that the argument is a binary64 number.
\<close>

theorem format_srt_time_shape:
  assumes "0 \<le> seconds" and "fl seconds = seconds"
  shows "let whole = \<lfloor>seconds\<rfloor>;
             h = whole div 3600; m = whole div 60 mod 60; s = whole mod 60;
             ms = \<lfloor>fl ((seconds - of_int whole) * 1000)\<rfloor>
         in format_srt_time seconds
              = fmt_0d 2 h
                @ [CHR '':'', digit_char (nat (m div 10)), digit_char (nat (m mod 10)),
                   CHR '':'', digit_char (nat (s div 10)), digit_char (nat (s mod 10)),
                   CHR '','', digit_char (nat (ms div 100)), digit_char (nat (ms div 10 mod 10)),
                   digit_char (nat (ms mod 10))]
            \<and> fmt_0d 2 h = (if h < 100 then [digit_char (nat (h div 10)), digit_char (nat (h mod 10))]
                            else str_nat (nat h))
            \<and> 0 \<le> h \<and> 0 \<le> m \<and> m < 60 \<and> 0 \<le> s \<and> s < 60 \<and> 0 \<le> ms \<and> ms < 1000
            \<and> format_srt_time (366125 / 100) = ''01:01:01,250''
            \<and> format_srt_time 0 = ''00:00:00,000''
            \<and> format_srt_time 360000 = ''100:00:00,000''
            \<and> format_srt_time (fl (19999 / 10000)) = ''00:00:01,999''"
proof -
  define whole where "whole = \<lfloor>seconds\<rfloor>"
  define ms where "ms = \<lfloor>fl ((seconds - of_int whole) * 1000)\<rfloor>"
  have w: "0 \<le> whole" using assms by (simp add: whole_def)
  have p: "py_int seconds = whole" using assms by (simp add: py_int_nonneg whole_def)
  have h: "whole div 60 div 60 = whole div 3600" by (simp add: zdiv_zmult2_eq [symmetric])
  have h0: "0 \<le> whole div 3600" using w by (simp add: pos_imp_zdiv_nonneg_iff)
  have m: "0 \<le> whole div 60 mod 60" "whole div 60 mod 60 < 60"
    using pos_mod_bound [of 60 "whole div 60"] by simp_all
  have s: "0 \<le> whole mod 60" "whole mod 60 < 60"
    using pos_mod_bound [of 60 whole] by simp_all
  have m': "whole div 60 mod 60 < 100" using m by simp
  have s': "whole mod 60 < 100" using s by simp
  have r: "py_int (fl (fl (seconds - fl (of_int whole)) * 1000)) = ms" "0 \<le> ms" "ms < 1000"
    using millisec_range [OF assms] by (simp_all add: whole_def ms_def)
  have A: "format_srt_time seconds
      = fmt_0d 2 (whole div 3600)
        @ [CHR '':'', digit_char (nat (whole div 60 mod 60 div 10)), digit_char (nat (whole div 60 mod 60 mod 10)),
           CHR '':'', digit_char (nat (whole mod 60 div 10)), digit_char (nat (whole mod 60 mod 10)),
           CHR '','', digit_char (nat (ms div 100)), digit_char (nat (ms div 10 mod 10)),
           digit_char (nat (ms mod 10))]"
    by (simp add: format_srt_time_def Let_def p h r(1) fmt_0d_2_digits [OF m(1) m']
        fmt_0d_2_digits [OF s(1) s'] fmt_0d_3_digits [OF r(2,3)])
  have B: "fmt_0d 2 (whole div 3600)
      = (if whole div 3600 < 100 then [digit_char (nat (whole div 3600 div 10)), digit_char (nat (whole div 3600 mod 10))]
         else str_nat (nat (whole div 3600)))"
    using h0 by (simp add: fmt_0d_2_digits fmt_0d_2_large)
  show ?thesis
    unfolding Let_def whole_def [symmetric] ms_def [symmetric]
    using A B h0 m s r(2,3) format_3661_25 format_0 format_90000 format_trunc by blast
qed

theorem format_srt_time_shape_witness:
  "(0 :: rat) \<le> 366125 / 100
   \<and> fl (366125 / 100) = 366125 / 100
   \<and> \<lfloor>366125 / 100 :: rat\<rfloor> = 3661
   \<and> \<lfloor>fl ((366125 / 100 - of_int 3661) * 1000)\<rfloor> = 250
   \<and> format_srt_time (366125 / 100)
      = fmt_0d 2 1 @ [CHR '':'', digit_char 0, digit_char 1, CHR '':'', digit_char 0, digit_char 1,
                      CHR '','', digit_char 2, digit_char 5, digit_char 0]"
proof -
  have h: "(0 :: rat) \<le> 366125 / 100" by simp
  have f: "\<lfloor>366125 / 100 :: rat\<rfloor> = 3661" by (rule floor_unique) simp_all
  have g: "\<lfloor>fl ((366125 / 100 - of_int 3661) * 1000)\<rfloor> = 250" by code_simp
  show ?thesis using format_srt_time_shape [OF h fl_366125] h fl_366125 unfolding Let_def f g by simp
qed

text \<open>
  C5. On the empty word sequence the program skips the loop: no block is written, the
  counter stays at 1, so the number of blocks it logs is 0, and the file is empty. This
  is an ordinary result of the function; no exception is involved.
\<close>

theorem empty_input:
  "create_speaker_srt [] = ([], 1) \<and> cues [] = [] \<and> generated_blocks [] = 0 \<and> srt_file [] = []"
  by (simp add: create_speaker_srt_Nil cues_def generated_blocks_def srt_file_def)

text \<open>
  C6. The groups behind the cues, concatenated in the order of the cues, are the input
  sequence; no group is empty; there is one cue for each group, made from that group. So
  every word occurrence of the input lies in exactly one cue, whole, and none is dropped
  or repeated.
\<close>

theorem words_partitioned:
  "concat (groups ws) = ws
   \<and> (\<forall>g\<in>set (groups ws). g \<noteq> [])
   \<and> length (cues ws) = length (groups ws)
   \<and> (\<forall>k<length (groups ws). cues ws ! k = write_block (int k + 1, groups ws ! k))"
proof -
  have "concat (groups ws) = ws" by (rule concat_groups)
  moreover have "\<forall>g\<in>set (groups ws). g \<noteq> []" using groups_not_Nil by blast
  moreover have "length (cues ws) = length (groups ws)" by (rule length_cues)
  moreover have "\<forall>k<length (groups ws). cues ws ! k = write_block (int k + 1, groups ws ! k)"
    using cues_nth by blast
  ultimately show ?thesis by blast
qed

theorem words_partitioned_witness:
  "groups [\<lparr>text = ''a'', start = 0, end = 500\<rparr>, \<lparr>text = ''b'', start = 600, end = 1100\<rparr>,
           \<lparr>text = ''c'', start = 2000, end = 2500\<rparr>]
     = [[\<lparr>text = ''a'', start = 0, end = 500\<rparr>, \<lparr>text = ''b'', start = 600, end = 1100\<rparr>],
        [\<lparr>text = ''c'', start = 2000, end = 2500\<rparr>]]
   \<and> concat (groups [\<lparr>text = ''a'', start = 0, end = 500\<rparr>, \<lparr>text = ''b'', start = 600, end = 1100\<rparr>,
                      \<lparr>text = ''c'', start = 2000, end = 2500\<rparr>])
     = [\<lparr>text = ''a'', start = 0, end = 500\<rparr>, \<lparr>text = ''b'', start = 600, end = 1100\<rparr>,
        \<lparr>text = ''c'', start = 2000, end = 2500\<rparr>]
   \<and> cues [\<lparr>text = ''a'', start = 0, end = 500\<rparr>, \<lparr>text = ''b'', start = 600, end = 1100\<rparr>,
            \<lparr>text = ''c'', start = 2000, end = 2500\<rparr>] ! 0
     = write_block (1, [\<lparr>text = ''a'', start = 0, end = 500\<rparr>, \<lparr>text = ''b'', start = 600, end = 1100\<rparr>])"
proof -
  have g: "groups [\<lparr>text = ''a'', start = 0, end = 500\<rparr>, \<lparr>text = ''b'', start = 600, end = 1100\<rparr>,
           \<lparr>text = ''c'', start = 2000, end = 2500\<rparr>]
     = [[\<lparr>text = ''a'', start = 0, end = 500\<rparr>, \<lparr>text = ''b'', start = 600, end = 1100\<rparr>],
        [\<lparr>text = ''c'', start = 2000, end = 2500\<rparr>]]"
    by (simp add: run_simps)
  show ?thesis
    using words_partitioned [of "[\<lparr>text = ''a'', start = 0, end = 500\<rparr>, \<lparr>text = ''b'', start = 600, end = 1100\<rparr>,
           \<lparr>text = ''c'', start = 2000, end = 2500\<rparr>]"]
    by (simp add: g)
qed

text \<open>
  C7. The joined text of every group, that is the text of every cue, has at most 80
  characters, unless the group is a single word whose own text is longer than 80
  characters. Every input word longer than 80 characters forms a group alone. When
  adding the next word to the open block would give more than 80 characters, the block is
  closed before that word and the word opens a new block.
\<close>

theorem length_budget:
  "(\<forall>g\<in>set (groups ws).
      length (join '' '' (map text g)) \<le> 80 \<or> (\<exists>w. g = [w] \<and> 80 < length (text w)))
   \<and> (\<forall>c\<in>set (cues ws).
        length (cue_text c) \<le> 80 \<or> (\<exists>w\<in>set ws. cue_text c = text w \<and> 80 < length (text w)))
   \<and> (\<forall>w\<in>set ws. 80 < length (text w) \<longrightarrow> [w] \<in> set (groups ws))
   \<and> (pre \<noteq> [] \<and> 80 < length (join '' '' (map text (current_block_words (run_loop pre))))
                          + length (text v) + 1
       \<longrightarrow> current_block_words (run_loop (pre @ [v])) = [v])"
proof -
  have A: "\<forall>g\<in>set (groups ws).
      length (join '' '' (map text g)) \<le> 80 \<or> (\<exists>w. g = [w] \<and> 80 < length (text w))"
    using group_text_bound by blast
  have B: "length (cue_text c) \<le> 80 \<or> (\<exists>w\<in>set ws. cue_text c = text w \<and> 80 < length (text w))"
    if "c \<in> set (cues ws)" for c
  proof -
    from that obtain e where e: "e \<in> set (fst (create_speaker_srt ws))" and c: "c = write_block e"
      by (auto simp: cues_def)
    have g: "snd e \<in> set (groups ws)" using e by (auto simp: groups_def)
    have t: "cue_text c = join '' '' (map text (snd e))"
      by (cases e) (simp add: c write_block_def)
    from group_text_bound [OF g] show ?thesis
    proof
      assume "length (join '' '' (map text (snd e))) \<le> 80"
      then show ?thesis by (simp add: t)
    next
      assume "\<exists>w. snd e = [w] \<and> 80 < length (text w)"
      then obtain w where w: "snd e = [w]" "80 < length (text w)" by blast
      have "w \<in> set (snd e)" using w by simp
      then have "w \<in> set (concat (groups ws))" using g by (simp only: set_concat) blast
      then have "w \<in> set ws" by (simp add: concat_groups)
      then show ?thesis using w by (auto simp: t)
    qed
  qed
  have C: "[w] \<in> set (groups ws)" if "w \<in> set ws" "80 < length (text w)" for w
  proof -
    have "w \<in> set (concat (groups ws))" using that by (simp add: concat_groups)
    then obtain g where g: "g \<in> set (groups ws)" "w \<in> set g" by auto
    then have "g = [w]" using that(2) by (rule long_word_alone)
    then show ?thesis using g by simp
  qed
  have D: "current_block_words (run_loop (pre @ [v])) = [v]"
    if "pre \<noteq> []" "80 < length (join '' '' (map text (current_block_words (run_loop pre)))) + length (text v) + 1"
  proof -
    have "current_block_words (run_loop pre) \<noteq> []" using that(1) by (rule current_nonempty)
    moreover have "should_start_new_block (current_block_words (run_loop pre)) v"
      using that(2) by (simp add: should_start_new_block_iff)
    ultimately show ?thesis by (simp add: run_loop_snoc loop_body_break)
  qed
  show ?thesis using A B C D by blast
qed

theorem length_budget_witness:
  "groups [\<lparr>text = replicate 81 (CHR ''x''), start = 0, end = 100\<rparr>, \<lparr>text = ''b'', start = 200, end = 300\<rparr>]
     = [[\<lparr>text = replicate 81 (CHR ''x''), start = 0, end = 100\<rparr>], [\<lparr>text = ''b'', start = 200, end = 300\<rparr>]]
   \<and> 80 < length (text \<lparr>text = replicate 81 (CHR ''x''), start = 0, end = 100\<rparr>)
   \<and> [\<lparr>text = replicate 81 (CHR ''x''), start = 0, end = 100\<rparr>]
       \<in> set (groups [\<lparr>text = replicate 81 (CHR ''x''), start = 0, end = 100\<rparr>, \<lparr>text = ''b'', start = 200, end = 300\<rparr>])
   \<and> length (join '' '' (map text [\<lparr>text = ''b'', start = 200, end = 300\<rparr>])) \<le> 80
   \<and> current_block_words (run_loop ([\<lparr>text = replicate 81 (CHR ''x''), start = 0, end = 100\<rparr>]
                                     @ [\<lparr>text = ''b'', start = 200, end = 300\<rparr>]))
       = [\<lparr>text = ''b'', start = 200, end = 300\<rparr>]"
proof -
  have g: "groups [\<lparr>text = replicate 81 (CHR ''x''), start = 0, end = 100\<rparr>, \<lparr>text = ''b'', start = 200, end = 300\<rparr>]
     = [[\<lparr>text = replicate 81 (CHR ''x''), start = 0, end = 100\<rparr>], [\<lparr>text = ''b'', start = 200, end = 300\<rparr>]]"
    by (simp add: run_simps)
  have c: "current_block_words (run_loop [\<lparr>text = replicate 81 (CHR ''x''), start = 0, end = 100\<rparr>])
     = [\<lparr>text = replicate 81 (CHR ''x''), start = 0, end = 100\<rparr>]"
    by (simp add: run_simps)
  show ?thesis
    using length_budget [of "[\<lparr>text = replicate 81 (CHR ''x''), start = 0, end = 100\<rparr>, \<lparr>text = ''b'', start = 200, end = 300\<rparr>]"
        "[\<lparr>text = replicate 81 (CHR ''x''), start = 0, end = 100\<rparr>]" "\<lparr>text = ''b'', start = 200, end = 300\<rparr>"]
    by (simp add: g c)
qed

text \<open>
  C8. For every word sequence the indices of the cues written are 1, 2, ..., N in this
  order, N being the number of cues, which is also the number of blocks the program logs.
\<close>

theorem index_contiguity:
  "map index (cues ws) = [1 .. int (length (cues ws))]
   \<and> generated_blocks ws = int (length (cues ws))"
proof -
  have "map index (cues ws) = map fst (fst (create_speaker_srt ws))"
    by (simp add: cues_def index_write_block)
  then show ?thesis
    by (simp add: indices_groups length_cues generated_blocks_def final_counter)
qed

text \<open>
  C9. For words with non-decreasing starts, each ending no earlier than it starts, every
  cue starts no later than it ends.
\<close>

theorem cue_start_le_end:
  assumes "sorted (map start ws)" and "\<forall>w\<in>set ws. start w \<le> end w"
  shows "\<forall>c\<in>set (cues ws). start_s c \<le> end_s c"
proof
  fix c
  assume "c \<in> set (cues ws)"
  then obtain i g where g: "g \<in> set (groups ws)" and c: "c = write_block (i, g)"
    using cue_of_group by blast
  have ne: "g \<noteq> []" using g by (rule groups_not_Nil)
  have "sorted (map start (concat (groups ws)))" using assms(1) by (simp add: concat_groups)
  then have "sorted (map start g)" using g by (rule sorted_concat_member)
  then have 1: "start (hd g) \<le> start (last g)" using ne by (rule sorted_hd_le_last)
  have "last g \<in> set g" using ne by simp
  then have "last g \<in> set (concat (groups ws))" using g by (simp only: set_concat) blast
  then have "last g \<in> set ws" by (simp add: concat_groups)
  then have 2: "start (last g) \<le> end (last g)" using assms(2) by simp
  from 1 2 have "start (hd g) \<le> end (last g)" by simp
  then have "truediv (start (hd g)) 1000 \<le> truediv (end (last g)) 1000" by (rule truediv_mono)
  then show "start_s c \<le> end_s c" by (simp add: c start_s_write_block end_s_write_block)
qed

theorem cue_start_le_end_witness:
  "sorted (map start [\<lparr>text = ''a'', start = 0, end = 500\<rparr>, \<lparr>text = ''b'', start = 2000, end = 2500\<rparr>])
   \<and> start \<lparr>text = ''a'', start = 0, end = 500\<rparr> \<le> end \<lparr>text = ''a'', start = 0, end = 500\<rparr>
   \<and> start \<lparr>text = ''b'', start = 2000, end = 2500\<rparr> \<le> end \<lparr>text = ''b'', start = 2000, end = 2500\<rparr>
   \<and> cues [\<lparr>text = ''a'', start = 0, end = 500\<rparr>, \<lparr>text = ''b'', start = 2000, end = 2500\<rparr>]
      = [write_block (1, [\<lparr>text = ''a'', start = 0, end = 500\<rparr>]),
         write_block (2, [\<lparr>text = ''b'', start = 2000, end = 2500\<rparr>])]
   \<and> start_s (write_block (1, [\<lparr>text = ''a'', start = 0, end = 500\<rparr>]))
       \<le> end_s (write_block (1, [\<lparr>text = ''a'', start = 0, end = 500\<rparr>]))
   \<and> start_s (write_block (2, [\<lparr>text = ''b'', start = 2000, end = 2500\<rparr>]))
       \<le> end_s (write_block (2, [\<lparr>text = ''b'', start = 2000, end = 2500\<rparr>]))"
proof -
  have h1: "sorted (map start [\<lparr>text = ''a'', start = 0, end = 500\<rparr>, \<lparr>text = ''b'', start = 2000, end = 2500\<rparr>])"
    by simp
  have h2: "\<forall>w\<in>set [\<lparr>text = ''a'', start = 0, end = 500\<rparr>, \<lparr>text = ''b'', start = 2000, end = 2500\<rparr>]. start w \<le> end w"
    by simp
  have c: "cues [\<lparr>text = ''a'', start = 0, end = 500\<rparr>, \<lparr>text = ''b'', start = 2000, end = 2500\<rparr>]
      = [write_block (1, [\<lparr>text = ''a'', start = 0, end = 500\<rparr>]),
         write_block (2, [\<lparr>text = ''b'', start = 2000, end = 2500\<rparr>])]"
    by (simp add: run_simps)
  show ?thesis using cue_start_le_end [OF h1 h2] h1 by (simp add: c)
qed

text \<open>
  C10. In every group of two or more words the end of the last word is less than
  7000 ms after the start of the first word; a group that spans 7000 ms or more is a
  single word. When the next word would end 7000 ms or more after the start of the open
  block, the block is closed before it. A single word always forms a group on its own,
  whatever its duration: the word that opens a block is not tested.
\<close>

theorem duration_budget:
  "(\<forall>g\<in>set (groups ws). 2 \<le> length g \<longrightarrow>
      end (last g) - start (hd g) < 7000
      \<and> truediv (end (last g) - start (hd g)) 1000 < of_int MAX_DURATION_S)
   \<and> (\<forall>g\<in>set (groups ws). 7000 \<le> end (last g) - start (hd g) \<longrightarrow> length g = 1)
   \<and> (pre \<noteq> [] \<and> 7000 \<le> end v - start (hd (current_block_words (run_loop pre)))
       \<longrightarrow> current_block_words (run_loop (pre @ [v])) = [v])
   \<and> groups [w] = [[w]]"
proof -
  have A: "\<forall>g\<in>set (groups ws). 2 \<le> length g \<longrightarrow>
      end (last g) - start (hd g) < 7000
      \<and> truediv (end (last g) - start (hd g)) 1000 < of_int MAX_DURATION_S"
    using group_span_bound duration_test_iff by (simp add: not_le [symmetric])
  have B: "length g = 1" if "g \<in> set (groups ws)" "7000 \<le> end (last g) - start (hd g)" for g
  proof -
    have "g \<noteq> []" using that(1) by (rule groups_not_Nil)
    then have "1 \<le> length g" by (cases g) simp_all
    moreover have "\<not> 2 \<le> length g" using group_span_bound [OF that(1)] that(2) by auto
    ultimately show ?thesis by simp
  qed
  have D: "current_block_words (run_loop (pre @ [v])) = [v]"
    if "pre \<noteq> []" "7000 \<le> end v - start (hd (current_block_words (run_loop pre)))"
  proof -
    have "current_block_words (run_loop pre) \<noteq> []" using that(1) by (rule current_nonempty)
    moreover have "should_start_new_block (current_block_words (run_loop pre)) v"
      using that(2) by (simp add: should_start_new_block_iff)
    ultimately show ?thesis by (simp add: run_loop_snoc loop_body_break)
  qed
  show ?thesis using A B D groups_single by blast
qed

theorem duration_budget_witness:
  "groups [\<lparr>text = ''a'', start = 0, end = 3000\<rparr>, \<lparr>text = ''b'', start = 3100, end = 6900\<rparr>,
           \<lparr>text = ''c'', start = 6950, end = 7000\<rparr>]
     = [[\<lparr>text = ''a'', start = 0, end = 3000\<rparr>, \<lparr>text = ''b'', start = 3100, end = 6900\<rparr>],
        [\<lparr>text = ''c'', start = 6950, end = 7000\<rparr>]]
   \<and> end (last [\<lparr>text = ''a'', start = 0, end = 3000\<rparr>, \<lparr>text = ''b'', start = 3100, end = 6900\<rparr>])
       - start (hd [\<lparr>text = ''a'', start = 0, end = 3000\<rparr>, \<lparr>text = ''b'', start = 3100, end = 6900\<rparr>]) < 7000
   \<and> current_block_words (run_loop ([\<lparr>text = ''a'', start = 0, end = 3000\<rparr>, \<lparr>text = ''b'', start = 3100, end = 6900\<rparr>]
                                     @ [\<lparr>text = ''c'', start = 6950, end = 7000\<rparr>]))
       = [\<lparr>text = ''c'', start = 6950, end = 7000\<rparr>]
   \<and> groups [\<lparr>text = ''long'', start = 0, end = 9000\<rparr>] = [[\<lparr>text = ''long'', start = 0, end = 9000\<rparr>]]
   \<and> length [\<lparr>text = ''long'', start = 0, end = 9000\<rparr>] = 1"
proof -
  have g: "groups [\<lparr>text = ''a'', start = 0, end = 3000\<rparr>, \<lparr>text = ''b'', start = 3100, end = 6900\<rparr>,
           \<lparr>text = ''c'', start = 6950, end = 7000\<rparr>]
     = [[\<lparr>text = ''a'', start = 0, end = 3000\<rparr>, \<lparr>text = ''b'', start = 3100, end = 6900\<rparr>],
        [\<lparr>text = ''c'', start = 6950, end = 7000\<rparr>]]"
    by (simp add: run_simps)
  have c: "current_block_words (run_loop [\<lparr>text = ''a'', start = 0, end = 3000\<rparr>, \<lparr>text = ''b'', start = 3100, end = 6900\<rparr>])
     = [\<lparr>text = ''a'', start = 0, end = 3000\<rparr>, \<lparr>text = ''b'', start = 3100, end = 6900\<rparr>]"
    by (simp add: run_simps)
  have l: "groups [\<lparr>text = ''long'', start = 0, end = 9000\<rparr>] = [[\<lparr>text = ''long'', start = 0, end = 9000\<rparr>]]"
    by (simp add: run_simps)
  show ?thesis
    using duration_budget [of "[\<lparr>text = ''a'', start = 0, end = 3000\<rparr>, \<lparr>text = ''b'', start = 3100, end = 6900\<rparr>,
           \<lparr>text = ''c'', start = 6950, end = 7000\<rparr>]"
        "[\<lparr>text = ''a'', start = 0, end = 3000\<rparr>, \<lparr>text = ''b'', start = 3100, end = 6900\<rparr>]"
        "\<lparr>text = ''c'', start = 6950, end = 7000\<rparr>" "\<lparr>text = ''long'', start = 0, end = 9000\<rparr>"]
      duration_budget [of "[\<lparr>text = ''long'', start = 0, end = 9000\<rparr>]"]
    by (simp add: g c l)
qed

end
